theory Spec2Isabelle
  imports Complex_Main "HOL-Library.Word"
begin

unbundle bit_operations_syntax

section \<open>Pokeball Plus mouse driver: data model\<close>

text \<open>
  The driver (\<^verbatim>\<open>src/pokeball_mouse_working.py\<close>) receives notification packets
  (Python \<^verbatim>\<open>bytearray\<close> values) and writes events to a virtual input device.
  A packet is a list of bytes; every element is an 8-bit unsigned value.
\<close>

type_synonym byte = "8 word"
type_synonym packet = "byte list"

text \<open>
  Python exceptions that the modelled statements can raise: indexing a packet out of
  range, integer division by zero, \<^verbatim>\<open>statistics.median\<close> on an empty list, and
  \<^verbatim>\<open>min\<close> or \<^verbatim>\<open>max\<close> of an empty list.
\<close>

datatype py_error = IndexError | ZeroDivisionError | StatisticsError | ValueError

text \<open>\<^verbatim>\<open>data[i]\<close> for a non-negative literal index \<open>i\<close>.\<close>

definition byte_at :: "packet \<Rightarrow> nat \<Rightarrow> py_error + int" where
  "byte_at data i = (if i < length data then Inr (uint (data ! i)) else Inl IndexError)"

text \<open>
  The calls \<^verbatim>\<open>self.device.write(type, code, value)\<close> and \<^verbatim>\<open>self.device.syn()\<close>
  are the output of the driver; they are recorded in the order in which they are made.
\<close>

datatype ev_type = EV_REL | EV_KEY
datatype ev_code = REL_X | REL_Y | BTN_LEFT | BTN_RIGHT
datatype dev_event = Write ev_type ev_code int | Syn

text \<open>Sequencing of steps that may raise: the first exception ends the computation.\<close>

definition bind_err :: "py_error + 'a \<Rightarrow> ('a \<Rightarrow> py_error + 'b) \<Rightarrow> py_error + 'b" where
  "bind_err m f = (case m of Inl e \<Rightarrow> Inl e | Inr v \<Rightarrow> f v)"

subsection \<open>Floating point\<close>

text \<open>
  A finite binary64 value is kept as an integer significand and a binary exponent; the
  value denoted is \<open>mant * 2 ^ expo\<close>. Results of arithmetic are rounded to 53
  significant bits, to nearest, ties to even. The exponent is not bounded here: the
  driver multiplies a byte difference by a constant of magnitude below 1 and the
  calibration tool halves a sum of two bytes, far away from overflow and from the
  subnormal range.
\<close>

record double =
  mant :: int
  expo :: int

definition double_val :: "double \<Rightarrow> real" where
  "double_val d = of_int (mant d) * 2 powi (expo d)"

text \<open>\<^verbatim>\<open>int.bit_length()\<close> of a natural number.\<close>

function bit_length :: "nat \<Rightarrow> nat" where
  "bit_length n = (if n = 0 then 0 else Suc (bit_length (n div 2)))"
  by pat_completeness auto
termination
  by (relation "measure (\<lambda>n. n)") auto

declare bit_length.simps [simp del]

definition double_round :: "double \<Rightarrow> double" where
  "double_round d =
     (let a = nat \<bar>mant d\<bar>; n = bit_length a in
      if n \<le> 53 then d
      else
        let sh = n - 53;
            q = a div 2 ^ sh;
            r = a mod 2 ^ sh;
            q' = (if r > 2 ^ (sh - 1) \<or> (r = 2 ^ (sh - 1) \<and> odd q) then q + 1 else q)
        in \<lparr>mant = sgn (mant d) * int q', expo = expo d + int sh\<rparr>)"

text \<open>Conversion of a Python int to float, as in the mixed product \<^verbatim>\<open>int * float\<close>.\<close>

definition float_of_int :: "int \<Rightarrow> double" where
  "float_of_int k = double_round \<lparr>mant = k, expo = 0\<rparr>"

definition float_mul :: "double \<Rightarrow> double \<Rightarrow> double" where
  "float_mul a b = double_round \<lparr>mant = mant a * mant b, expo = expo a + expo b\<rparr>"

text \<open>\<^verbatim>\<open>int(x)\<close> for a float \<open>x\<close>: the fractional part is discarded.\<close>

definition int_of_float :: "double \<Rightarrow> int" where
  "int_of_float d =
     (if 0 \<le> expo d then mant d * 2 ^ nat (expo d)
      else sgn (mant d) * (\<bar>mant d\<bar> div 2 ^ nat (- expo d)))"

text \<open>The literal \<^verbatim>\<open>0.4\<close>: the binary64 value nearest to 2/5.\<close>

definition float_0_4 :: double where
  "float_0_4 = \<lparr>mant = 3602879701896397, expo = - 53\<rparr>"

subsection \<open>Driver state\<close>

text \<open>
  The attributes of \<^verbatim>\<open>PokeballMouseWorking\<close>. The BLE client object is represented
  by whether a client exists and is connected.
\<close>

record driver =
  client_connected :: bool
  counter :: int
  last_button_state :: int
  y_center :: int
  y_deadzone :: int
  x_speed :: int
  y_sensitivity :: double

text \<open>\<^verbatim>\<open>__init__\<close> (lines 28-39).\<close>

definition init :: driver where
  "init = \<lparr>client_connected = False, counter = 0, last_button_state = 0,
            y_center = 118, y_deadzone = 15, x_speed = 20, y_sensitivity = float_0_4\<rparr>"

section \<open>X axis\<close>

text \<open>\<^verbatim>\<open>range(a, b)\<close> on Python ints.\<close>

definition py_range :: "int \<Rightarrow> int \<Rightarrow> int list" where
  "py_range a b = [a .. b - 1]"

text \<open>\<^verbatim>\<open>get_x_direction\<close> (lines 56-72); the argument is a Python int.\<close>

definition get_x_direction :: "driver \<Rightarrow> int \<Rightarrow> string \<times> int" where
  "get_x_direction s nibble_value =
     (if nibble_value \<in> set [2, 3] then (''LEFT'', - x_speed s)
      else if nibble_value \<in> set (py_range 4 8) then (''CENTER'', 0)
      else if nibble_value \<ge> 8 then (''RIGHT'', x_speed s)
      else if nibble_value < 2 then (''LEFT'', - x_speed s)
      else (''CENTER'', 0))"

section \<open>Y axis\<close>

text \<open>
  Lines 93-96 of \<^verbatim>\<open>notification_handler\<close>: the offset from the centre, the deadzone
  test, and \<^verbatim>\<open>y_move = int(y_offset * self.y_sensitivity)\<close>, a product of an int and
  a float converted back to int.
\<close>

definition y_movement :: "driver \<Rightarrow> int \<Rightarrow> int" where
  "y_movement s y_raw =
     (let y_offset = y_raw - y_center s;
          y_offset = (if \<bar>y_offset\<bar> < y_deadzone s then 0 else y_offset)
      in int_of_float (float_mul (float_of_int y_offset) (y_sensitivity s)))"

section \<open>The notification handler\<close>

text \<open>Lines 99-104: the relative movement is written only when it is not zero.\<close>

definition send_movement :: "int \<Rightarrow> int \<Rightarrow> dev_event list" where
  "send_movement x_move y_move =
     (if x_move \<noteq> 0 \<or> y_move \<noteq> 0 then
        (if x_move \<noteq> 0 then [Write EV_REL REL_X x_move] else []) @
        (if y_move \<noteq> 0 then [Write EV_REL REL_Y y_move] else []) @
        [Syn]
      else [])"

text \<open>
  Lines 111-127: the whole button byte is compared with the stored one; on a difference
  the current value of both buttons is written and the byte is stored.
\<close>

definition handle_buttons :: "driver \<Rightarrow> int \<Rightarrow> driver \<times> dev_event list" where
  "handle_buttons s buttons =
     (if buttons \<noteq> last_button_state s then
        (s\<lparr>last_button_state := buttons\<rparr>,
         [Write EV_KEY BTN_LEFT (if buttons AND 1 \<noteq> 0 then 1 else 0),
          Write EV_KEY BTN_RIGHT (if buttons AND 2 \<noteq> 0 then 1 else 0),
          Syn])
      else (s, []))"

text \<open>
  Lines 81-127 of \<^verbatim>\<open>notification_handler\<close>: the body that decodes a packet and writes
  the events. A packet of fewer than five bytes fails the length test and nothing is
  read from it.
\<close>

definition process_packet :: "driver \<Rightarrow> packet \<Rightarrow> py_error + driver \<times> dev_event list" where
  "process_packet s data =
     (if length data \<ge> 5 then
        bind_err (byte_at data 1) (\<lambda>buttons.
        bind_err (byte_at data 3) (\<lambda>b3.
        bind_err (byte_at data 4) (\<lambda>y_raw.
          let x_nibble = b3 AND 0x0F;
              (x_direction, x_move) = get_x_direction s x_nibble;
              y_move = y_movement s y_raw;
              (s', clicks) = handle_buttons s buttons
          in Inr (s', send_movement x_move y_move @ clicks))))
      else Inr (s, []))"

text \<open>
  \<^verbatim>\<open>notification_handler\<close> (lines 74-127): the counter is incremented first, then
  two calls out of three return at once. The result is the updated driver and the device
  calls made, or the exception raised. The debug \<^verbatim>\<open>print\<close> calls are left out.
\<close>

definition notification_handler :: "driver \<Rightarrow> packet \<Rightarrow> py_error + driver \<times> dev_event list" where
  "notification_handler s0 data =
     (let s = s0\<lparr>counter := counter s0 + 1\<rparr> in
      if counter s mod 3 \<noteq> 0 then Inr (s, [])
      else process_packet s data)"

text \<open>
  The transport hands the packets to the handler one after the other. \<open>deliver\<close> runs the
  handler over a list of packets and keeps the device calls of each packet apart.
\<close>

fun deliver :: "driver \<Rightarrow> packet list \<Rightarrow> py_error + driver \<times> dev_event list list" where
  "deliver s [] = Inr (s, [])"
| "deliver s (p # ps) =
     bind_err (notification_handler s p) (\<lambda>(s', out).
     bind_err (deliver s' ps) (\<lambda>(s'', outs). Inr (s'', out # outs)))"

section \<open>Connection handling\<close>

text \<open>
  \<^verbatim>\<open>connect\<close> (lines 49-54) makes a new client, connects it and registers the
  handler; no other attribute is assigned. The loop of \<^verbatim>\<open>run\<close> (lines 180-184) calls
  it when the client is found disconnected. \<open>connection_lost\<close> is the transport
  dropping the link. A connection attempt that fails raises and ends \<^verbatim>\<open>run\<close>; the
  definitions follow the attempt that succeeds.
\<close>

definition connect :: "driver \<Rightarrow> driver" where
  "connect s = s\<lparr>client_connected := True\<rparr>"

definition connection_lost :: "driver \<Rightarrow> driver" where
  "connection_lost s = s\<lparr>client_connected := False\<rparr>"

definition run_step :: "driver \<Rightarrow> driver" where
  "run_step s = (if \<not> client_connected s then connect s else s)"

section \<open>In-session calibration\<close>

text \<open>\<^verbatim>\<open>a // b\<close> on Python ints.\<close>

definition py_floordiv :: "int \<Rightarrow> int \<Rightarrow> py_error + int" where
  "py_floordiv a b = (if b = 0 then Inl ZeroDivisionError else Inr (a div b))"

text \<open>
  \<^verbatim>\<open>cal_handler\<close> (lines 137-140), on the pair of sample lists
  \<open>(y_samples, x_samples)\<close>.
\<close>

definition cal_handler :: "int list \<times> int list \<Rightarrow> packet \<Rightarrow> py_error + int list \<times> int list" where
  "cal_handler samples data =
     (let (y_samples, x_samples) = samples in
      if length data \<ge> 5 then
        bind_err (byte_at data 4) (\<lambda>b4.
        bind_err (byte_at data 3) (\<lambda>b3.
          Inr (y_samples @ [b4], x_samples @ [b3 AND 0x0F])))
      else Inr (y_samples, x_samples))"

fun cal_collect :: "int list \<times> int list \<Rightarrow> packet list \<Rightarrow> py_error + int list \<times> int list" where
  "cal_collect samples [] = Inr samples"
| "cal_collect samples (p # ps) =
     bind_err (cal_handler samples p) (\<lambda>samples'. cal_collect samples' ps)"

text \<open>
  \<^verbatim>\<open>calibrate_y_axis\<close> (lines 129-158); \<open>window\<close> is the list of packets that arrive
  during the two seconds of sampling. Lines 150-155 only print the most common X nibble
  and are left out.
\<close>

definition calibrate_y_axis :: "driver \<Rightarrow> packet list \<Rightarrow> py_error + driver" where
  "calibrate_y_axis s window =
     bind_err (cal_collect ([], []) window) (\<lambda>(y_samples, x_samples).
       if y_samples \<noteq> [] then
         bind_err (py_floordiv (sum_list y_samples) (int (length y_samples)))
           (\<lambda>c. Inr (s\<lparr>y_center := c\<rparr>))
       else Inr s)"

section \<open>The calibration tool\<close>

text \<open>
  \<^verbatim>\<open>src/tools/pokeball_calibrate.py\<close>: the attributes of \<^verbatim>\<open>PokeballCalibrator\<close>, its
  handler (lines 37-48) and the statistics of \<^verbatim>\<open>calibrate\<close> (lines 67-100).
\<close>

record calibrator =
  x_values :: "int list"
  y_values :: "int list"
  sample_count :: int
  max_samples :: int

definition calibrator_init :: calibrator where
  "calibrator_init = \<lparr>x_values = [], y_values = [], sample_count = 0, max_samples = 500\<rparr>"

definition calibrator_handler :: "calibrator \<Rightarrow> packet \<Rightarrow> py_error + calibrator" where
  "calibrator_handler c data =
     (if length data \<ge> 4 \<and> sample_count c < max_samples c then
        bind_err (byte_at data 2) (\<lambda>x.
        bind_err (byte_at data 3) (\<lambda>y.
          Inr (c\<lparr>x_values := x_values c @ [x], y_values := y_values c @ [y],
                 sample_count := sample_count c + 1\<rparr>)))
      else Inr c)"

fun calibrator_deliver :: "calibrator \<Rightarrow> packet list \<Rightarrow> py_error + calibrator" where
  "calibrator_deliver c [] = Inr c"
| "calibrator_deliver c (p # ps) =
     bind_err (calibrator_handler c p) (\<lambda>c'. calibrator_deliver c' ps)"

text \<open>
  \<^verbatim>\<open>statistics.median\<close> of the standard library returns the middle element of the
  sorted data when their number is odd, and the float \<^verbatim>\<open>(data[i - 1] + data[i]) / 2\<close>
  when it is even.
\<close>

datatype py_number = PyInt int | PyFloat double

definition truediv_2 :: "int \<Rightarrow> double" where
  "truediv_2 k = double_round \<lparr>mant = k, expo = - 1\<rparr>"

definition median :: "int list \<Rightarrow> py_error + py_number" where
  "median xs =
     (let data = sort xs; n = length data in
      if n = 0 then Inl StatisticsError
      else if n mod 2 = 1 then Inr (PyInt (data ! (n div 2)))
      else let i = n div 2 in Inr (PyFloat (truediv_2 (data ! (i - 1) + data ! i))))"

fun py_int :: "py_number \<Rightarrow> int" where
  "py_int (PyInt k) = k"
| "py_int (PyFloat d) = int_of_float d"

definition py_min :: "int list \<Rightarrow> py_error + int" where
  "py_min xs = (case xs of [] \<Rightarrow> Inl ValueError | x # r \<Rightarrow> Inr (fold min r x))"

definition py_max :: "int list \<Rightarrow> py_error + int" where
  "py_max xs = (case xs of [] \<Rightarrow> Inl ValueError | x # r \<Rightarrow> Inr (fold max r x))"

text \<open>
  What \<^verbatim>\<open>calibrate\<close> computes and writes to the calibration file. The means of lines
  69-70 are only printed and are left out.
\<close>

record calibration =
  center_x :: int
  center_y :: int
  deadzone :: int
  x_range :: "int \<times> int"
  y_range :: "int \<times> int"

definition calibrate_statistics :: "calibrator \<Rightarrow> py_error + calibration" where
  "calibrate_statistics c =
     bind_err (median (x_values c)) (\<lambda>mx.
     bind_err (median (y_values c)) (\<lambda>my.
     bind_err (py_min (x_values c)) (\<lambda>x_min.
     bind_err (py_max (x_values c)) (\<lambda>x_max.
     bind_err (py_min (y_values c)) (\<lambda>y_min.
     bind_err (py_max (y_values c)) (\<lambda>y_max.
       let x_median = py_int mx;
           y_median = py_int my;
           x_drift = x_max - x_min;
           y_drift = y_max - y_min;
           recommended_deadzone = max x_drift y_drift + 5
       in Inr \<lparr>center_x = x_median, center_y = y_median, deadzone = recommended_deadzone,
                x_range = (x_min, x_max), y_range = (y_min, y_max)\<rparr>))))))"

text \<open>
  The spec's words for the centre: the median of the collected values, as an integer.
  For an even number of values the two middle ones are averaged and the fraction is
  dropped.
\<close>

definition integer_median :: "int list \<Rightarrow> int" where
  "integer_median xs =
     (let data = sort xs; n = length data in
      if odd n then data ! (n div 2)
      else (data ! (n div 2 - 1) + data ! (n div 2)) div 2)"

text \<open>
  The spec's words for the conversion to an integer: truncation toward zero, as opposed
  to the floor.
\<close>

definition trunc_toward_zero :: "real \<Rightarrow> int" where
  "trunc_toward_zero x = (if 0 \<le> x then \<lfloor>x\<rfloor> else \<lceil>x\<rceil>)"

text \<open>The values that the handlers append to the sample lists are bytes.\<close>

definition byte_values :: "int list \<Rightarrow> bool" where
  "byte_values xs = (\<forall>v \<in> set xs. 0 \<le> v \<and> v \<le> 255)"

text \<open>
  The button writes among the device calls of one packet: the key code and the value
  written, in order.
\<close>

fun click_of :: "dev_event \<Rightarrow> (ev_code \<times> int) list" where
  "click_of (Write EV_KEY c v) = [(c, v)]"
| "click_of (Write EV_REL c v) = []"
| "click_of Syn = []"

definition click_events :: "dev_event list \<Rightarrow> (ev_code \<times> int) list" where
  "click_events out = concat (map click_of out)"

section \<open>Basic facts\<close>

lemma byte_at_in_range: "i < length data \<Longrightarrow> byte_at data i = Inr (uint (data ! i))"
  by (simp add: byte_at_def)

lemma bind_err_Inr [simp]: "bind_err (Inr v) f = f v"
  by (simp add: bind_err_def)

lemma bind_err_Inl [simp]: "bind_err (Inl e) f = Inl e"
  by (simp add: bind_err_def)

lemma process_packet_short: "length data < 5 \<Longrightarrow> process_packet s data = Inr (s, [])"
  by (simp add: process_packet_def)

lemma process_packet_long:
  assumes "5 \<le> length data"
  shows "process_packet s data =
           Inr (fst (handle_buttons s (uint (data ! 1))),
                send_movement (snd (get_x_direction s (uint (data ! 3) AND 15)))
                              (y_movement s (uint (data ! 4)))
                @ snd (handle_buttons s (uint (data ! 1))))"
  using assms
  by (simp add: process_packet_def byte_at_in_range Let_def split_beta)

lemma handle_buttons_counter: "counter (fst (handle_buttons s b)) = counter s"
  by (simp add: handle_buttons_def)

lemma process_packet_total: "\<exists>s' out. process_packet s data = Inr (s', out) \<and> counter s' = counter s"
proof (cases "5 \<le> length data")
  case True
  then show ?thesis
    by (simp add: process_packet_long handle_buttons_counter)
next
  case False
  then show ?thesis
    by (simp add: process_packet_short)
qed

lemma notification_handler_total:
  "\<exists>s' out. notification_handler s data = Inr (s', out) \<and> counter s' = counter s + 1"
proof (cases "(counter s + 1) mod 3 = 0")
  case True
  obtain s' out where "process_packet (s\<lparr>counter := counter s + 1\<rparr>) data = Inr (s', out)"
    and "counter s' = counter (s\<lparr>counter := counter s + 1\<rparr>)"
    using process_packet_total by blast
  with True show ?thesis
    by (simp add: notification_handler_def)
next
  case False
  then show ?thesis
    by (simp add: notification_handler_def)
qed

lemma deliver_total:
  "\<exists>s' outs. deliver s ps = Inr (s', outs) \<and> counter s' = counter s + int (length ps)
             \<and> length outs = length ps"
proof (induction ps arbitrary: s)
  case Nil
  show ?case by simp
next
  case (Cons p ps)
  obtain s1 out where h: "notification_handler s p = Inr (s1, out)" "counter s1 = counter s + 1"
    using notification_handler_total by blast
  obtain s2 outs where d: "deliver s1 ps = Inr (s2, outs)"
    "counter s2 = counter s1 + int (length ps)" "length outs = length ps"
    using Cons.IH by blast
  from h d show ?case by simp
qed

lemma deliver_append:
  assumes "deliver s ps = Inr (s1, outs1)" and "deliver s1 qs = Inr (s2, outs2)"
  shows "deliver s (ps @ qs) = Inr (s2, outs1 @ outs2)"
  using assms
proof (induction ps arbitrary: s outs1)
  case Nil
  then show ?case by simp
next
  case (Cons p ps)
  obtain sa out where h: "notification_handler s p = Inr (sa, out)"
    using notification_handler_total by blast
  obtain sb outs where d: "deliver sa ps = Inr (sb, outs)"
    using deliver_total by blast
  from Cons.prems(1) h d have e: "sb = s1" "outs1 = out # outs" by simp_all
  from Cons.IH [of sa outs] d e Cons.prems(2) have "deliver sa (ps @ qs) = Inr (s2, outs @ outs2)"
    by simp
  with h e show ?case by simp
qed

subsection \<open>Floating point\<close>

lemma double_val_nonneg_expo:
  "0 \<le> expo d \<Longrightarrow> double_val d = of_int (mant d * 2 ^ nat (expo d))"
  by (simp add: double_val_def power_int_def)

lemma double_val_neg_expo:
  "expo d < 0 \<Longrightarrow> double_val d = of_int (mant d) / of_int (2 ^ nat (- expo d))"
  by (simp add: double_val_def power_int_def field_simps)

lemma int_of_float_trunc: "int_of_float d = trunc_toward_zero (double_val d)"
proof (cases "0 \<le> expo d")
  case True
  then show ?thesis
    by (simp add: int_of_float_def trunc_toward_zero_def double_val_nonneg_expo
        del: of_int_mult of_int_power)
next
  case False
  define n where "n = nat (- expo d)"
  have v: "double_val d = of_int (mant d) / of_int (2 ^ n)"
    using False by (simp add: double_val_neg_expo n_def)
  show ?thesis
  proof (cases "0 \<le> mant d")
    case True
    then have "0 \<le> double_val d"
      unfolding v by (simp add: divide_nonneg_pos)
    moreover have "\<lfloor>double_val d\<rfloor> = mant d div 2 ^ n"
      unfolding v by (rule floor_divide_of_int_eq)
    moreover have "sgn (mant d) * (\<bar>mant d\<bar> div 2 ^ n) = mant d div 2 ^ n"
      using True by (cases "mant d = 0") (simp_all add: sgn_if)
    ultimately show ?thesis
      using False by (simp add: int_of_float_def trunc_toward_zero_def n_def)
  next
    case neg: False
    then have lt: "double_val d < 0"
      unfolding v by (simp add: divide_neg_pos)
    have "double_val d = - (of_int (- mant d) / of_int (2 ^ n))"
      unfolding v by simp
    then have "\<lceil>double_val d\<rceil> = - \<lfloor>(of_int (- mant d) :: real) / of_int (2 ^ n)\<rfloor>"
      by (simp only: ceiling_minus)
    also have "\<dots> = - ((- mant d) div 2 ^ n)"
      by (simp only: floor_divide_of_int_eq)
    finally have "\<lceil>double_val d\<rceil> = - ((- mant d) div 2 ^ n)" .
    moreover have "sgn (mant d) * (\<bar>mant d\<bar> div 2 ^ n) = - ((- mant d) div 2 ^ n)"
      using neg by (simp add: sgn_if)
    ultimately show ?thesis
      using False lt by (simp add: int_of_float_def trunc_toward_zero_def n_def)
  qed
qed

lemma bit_length_0: "bit_length 0 = 0"
  by (simp add: bit_length.simps)

lemma double_round_zero: "mant d = 0 \<Longrightarrow> double_round d = d"
  by (simp add: double_round_def bit_length_0)

lemma float_mul_zero: "int_of_float (float_mul (float_of_int 0) b) = 0"
  by (simp add: float_mul_def float_of_int_def double_round_zero int_of_float_def)

lemma y_movement_in_deadzone:
  "\<bar>y_raw - y_center s\<bar> < y_deadzone s \<Longrightarrow> y_movement s y_raw = 0"
  by (simp add: y_movement_def float_mul_zero)

lemma y_movement_outside:
  "\<not> \<bar>y_raw - y_center s\<bar> < y_deadzone s \<Longrightarrow>
   y_movement s y_raw =
     int_of_float (float_mul (float_of_int (y_raw - y_center s)) (y_sensitivity s))"
  by (simp add: y_movement_def)

text \<open>The products of the worked examples, one rounding step at a time.\<close>

lemma float_of_int_22: "float_of_int 22 = \<lparr>mant = 22, expo = 0\<rparr>"
  by (simp add: float_of_int_def double_round_def bit_length.simps Let_def)

lemma float_of_int_minus_28: "float_of_int (- 28) = \<lparr>mant = - 28, expo = 0\<rparr>"
  by (simp add: float_of_int_def double_round_def bit_length.simps Let_def)

lemma float_mul_22: 
  "float_mul \<lparr>mant = 22, expo = 0\<rparr> float_0_4 = \<lparr>mant = 4953959590107546, expo = - 49\<rparr>"
  by (simp add: float_mul_def float_0_4_def double_round_def bit_length.simps Let_def)

lemma float_mul_minus_28: 
  "float_mul \<lparr>mant = - 28, expo = 0\<rparr> float_0_4 = \<lparr>mant = - 6305039478318695, expo = - 49\<rparr>"
  by (simp add: float_mul_def float_0_4_def double_round_def bit_length.simps Let_def)

lemma y_movement_init_140: "y_movement init 140 = 8"
proof -
  have "y_movement init 140 = int_of_float (float_mul (float_of_int 22) float_0_4)"
    by (simp add: y_movement_outside init_def)
  then show ?thesis
    by (simp add: float_of_int_22 float_mul_22 int_of_float_def)
qed

lemma y_movement_init_90: "y_movement init 90 = - 11"
proof -
  have "y_movement init 90 = int_of_float (float_mul (float_of_int (- 28)) float_0_4)"
    by (simp add: y_movement_outside init_def)
  then show ?thesis
    by (simp add: float_of_int_minus_28 float_mul_minus_28 int_of_float_def)
qed

lemma floor_product_minus_28:
  "\<lfloor>double_val (float_mul (float_of_int (- 28)) float_0_4)\<rfloor> = - 12"
proof -
  have "double_val (float_mul (float_of_int (- 28)) float_0_4) =
          of_int (- 6305039478318695) / of_int (2 ^ 49)"
    by (simp add: float_of_int_minus_28 float_mul_minus_28 double_val_neg_expo)
  then have "\<lfloor>double_val (float_mul (float_of_int (- 28)) float_0_4)\<rfloor> =
          (- 6305039478318695) div 2 ^ 49"
    by (simp only: floor_divide_of_int_eq)
  then show ?thesis by simp
qed

subsection \<open>Evaluating the handler\<close>

lemma handler_skip:
  "(counter s + 1) mod 3 \<noteq> 0 \<Longrightarrow>
   notification_handler s data = Inr (s\<lparr>counter := counter s + 1\<rparr>, [])"
  by (simp add: notification_handler_def Let_def)

lemma handler_process:
  "(counter s + 1) mod 3 = 0 \<Longrightarrow>
   notification_handler s data = process_packet (s\<lparr>counter := counter s + 1\<rparr>) data"
  by (simp add: notification_handler_def Let_def)

lemma y_movement_update [simp]:
  "y_movement (s\<lparr>counter := c\<rparr>) y = y_movement s y"
  "y_movement (s\<lparr>last_button_state := b\<rparr>) y = y_movement s y"
  "y_movement (s\<lparr>client_connected := f\<rparr>) y = y_movement s y"
  by (simp_all add: y_movement_def)

lemma get_x_direction_update [simp]:
  "get_x_direction (s\<lparr>counter := c\<rparr>) n = get_x_direction s n"
  "get_x_direction (s\<lparr>last_button_state := b\<rparr>) n = get_x_direction s n"
  "get_x_direction (s\<lparr>client_connected := f\<rparr>) n = get_x_direction s n"
  by (simp_all add: get_x_direction_def)

lemma y_movement_init_118: "y_movement init 118 = 0"
  by (simp add: y_movement_in_deadzone init_def)

lemma get_x_direction_init:
  "get_x_direction init 9 = (''RIGHT'', 20)" "get_x_direction init 4 = (''CENTER'', 0)"
  by (simp_all add: get_x_direction_def py_range_def init_def)

lemma deliver_nth:
  assumes "k < length ps"
  shows "\<exists>sk outs_k s1 s' outs.
           deliver s (take k ps) = Inr (sk, outs_k) \<and> counter sk = counter s + int k
           \<and> notification_handler sk (ps ! k) = Inr (s1, outs ! k)
           \<and> deliver s ps = Inr (s', outs)"
proof -
  obtain sk outs_k where a: "deliver s (take k ps) = Inr (sk, outs_k)"
    "counter sk = counter s + int (length (take k ps))" "length outs_k = length (take k ps)"
    using deliver_total by blast
  obtain s1 out where b: "notification_handler sk (ps ! k) = Inr (s1, out)"
    using notification_handler_total by blast
  obtain s2 outs2 where c: "deliver s1 (drop (Suc k) ps) = Inr (s2, outs2)"
    using deliver_total by blast
  from b c have "deliver sk (ps ! k # drop (Suc k) ps) = Inr (s2, out # outs2)"
    by simp
  with a(1) have "deliver s (take k ps @ ps ! k # drop (Suc k) ps) = Inr (s2, outs_k @ out # outs2)"
    by (rule deliver_append)
  then have d: "deliver s ps = Inr (s2, outs_k @ out # outs2)"
    using assms by (simp add: id_take_nth_drop [symmetric])
  have "length outs_k = k"
    using a(3) assms by simp
  then have "(outs_k @ out # outs2) ! k = out"
    by (simp add: nth_append)
  with a b d assms show ?thesis
    by auto
qed

subsection \<open>Calibration\<close>

lemma cal_handler_eq:
  "cal_handler (ys, xs) data =
     Inr (if 5 \<le> length data then (ys @ [uint (data ! 4)], xs @ [uint (data ! 3) AND 15])
          else (ys, xs))"
  by (simp add: cal_handler_def byte_at_in_range)

lemma cal_collect_eq:
  "cal_collect (ys, xs) window =
     Inr (ys @ map (\<lambda>p. uint (p ! 4)) (filter (\<lambda>p. 5 \<le> length p) window),
          xs @ map (\<lambda>p. uint (p ! 3) AND 15) (filter (\<lambda>p. 5 \<le> length p) window))"
proof (induction window arbitrary: ys xs)
  case Nil
  show ?case by simp
next
  case (Cons p window)
  show ?case
    by (cases "5 \<le> length p") (simp_all add: cal_handler_eq Cons.IH)
qed

lemma calibrate_y_axis_eq:
  "calibrate_y_axis s window =
     (let y_samples = map (\<lambda>p. uint (p ! 4)) (filter (\<lambda>p. 5 \<le> length p) window) in
      if y_samples \<noteq> [] then
        Inr (s\<lparr>y_center := sum_list y_samples div int (length y_samples)\<rparr>)
      else Inr s)"
  by (simp add: calibrate_y_axis_def cal_collect_eq [of "[]" "[]", simplified] py_floordiv_def Let_def)

lemma calibrator_handler_eq:
  "calibrator_handler c data =
     Inr (if 4 \<le> length data \<and> sample_count c < max_samples c then
            c\<lparr>x_values := x_values c @ [uint (data ! 2)],
              y_values := y_values c @ [uint (data ! 3)],
              sample_count := sample_count c + 1\<rparr>
          else c)"
  by (simp add: calibrator_handler_def byte_at_in_range)

lemma byte_values_snoc: "byte_values xs \<Longrightarrow> byte_values (xs @ [uint (w :: byte)])"
  using uint_lt2p [of w] by (simp add: byte_values_def)

lemma calibrator_deliver_invariant:
  assumes "byte_values (x_values c)" and "byte_values (y_values c)"
    and "length (x_values c) = length (y_values c)"
  shows "\<exists>c'. calibrator_deliver c pkts = Inr c' \<and> byte_values (x_values c')
              \<and> byte_values (y_values c') \<and> length (x_values c') = length (y_values c')"
  using assms
proof (induction pkts arbitrary: c)
  case Nil
  then show ?case by simp
next
  case (Cons p pkts)
  show ?case
  proof (cases "4 \<le> length p \<and> sample_count c < max_samples c")
    case True
    let ?c = "c\<lparr>x_values := x_values c @ [uint (p ! 2)],
               y_values := y_values c @ [uint (p ! 3)],
               sample_count := sample_count c + 1\<rparr>"
    have "byte_values (x_values ?c)" "byte_values (y_values ?c)"
      "length (x_values ?c) = length (y_values ?c)"
      using Cons.prems by (simp_all add: byte_values_snoc)
    from Cons.IH [OF this] True show ?thesis
      by (simp add: calibrator_handler_eq)
  next
    case False
    then have "calibrator_handler c p = Inr c"
      by (simp add: calibrator_handler_eq)
    with Cons.IH [OF Cons.prems] show ?thesis
      by simp
  qed
qed

lemma bit_length_le: "n < 2 ^ m \<Longrightarrow> bit_length n \<le> m"
proof (induction m arbitrary: n)
  case 0
  then show ?case by (simp add: bit_length_0)
next
  case (Suc m)
  then have "n div 2 < 2 ^ m" by simp
  then have "bit_length (n div 2) \<le> m" by (rule Suc.IH)
  then show ?case
    by (subst bit_length.simps) simp
qed

lemma truediv_2_small:
  assumes "0 \<le> k" and "k \<le> 510"
  shows "int_of_float (truediv_2 k) = k div 2"
proof -
  have "nat \<bar>k\<bar> < 2 ^ 53" using assms by simp
  then have "bit_length (nat \<bar>k\<bar>) \<le> 53" by (rule bit_length_le)
  then have "truediv_2 k = \<lparr>mant = k, expo = - 1\<rparr>"
    by (simp add: truediv_2_def double_round_def)
  then show ?thesis
    using assms by (cases "k = 0") (simp_all add: int_of_float_def sgn_if)
qed

lemma sort_Nil_iff [simp]: "(sort xs = []) = (xs = [])"
  by (metis length_0_conv length_sort)

lemma median_total: "xs \<noteq> [] \<Longrightarrow> \<exists>m. median xs = Inr m"
  by (simp add: median_def Let_def)

lemma median_bytes:
  assumes "xs \<noteq> []" and "byte_values xs"
  shows "\<exists>m. median xs = Inr m \<and> py_int m = integer_median xs"
proof (cases "odd (length xs)")
  case True
  then have "length xs mod 2 = 1" by presburger
  with assms True show ?thesis
    by (simp add: median_def integer_median_def Let_def)
next
  case False
  let ?d = "sort xs"
  let ?i = "length xs div 2"
  from False assms have n: "2 \<le> length xs" "length xs mod 2 = 0"
    by (cases xs, simp, cases "tl xs", auto)
  then have "?i - 1 < length ?d" "?i < length ?d" by simp_all
  then have "?d ! (?i - 1) \<in> set ?d" "?d ! ?i \<in> set ?d"
    by (simp_all only: nth_mem)
  then have "?d ! (?i - 1) \<in> set xs" "?d ! ?i \<in> set xs"
    by simp_all
  with assms(2) have "0 \<le> ?d ! (?i - 1) \<and> ?d ! (?i - 1) \<le> 255"
    "0 \<le> ?d ! ?i \<and> ?d ! ?i \<le> 255"
    unfolding byte_values_def by blast+
  then have "0 \<le> ?d ! (?i - 1) + ?d ! ?i" "?d ! (?i - 1) + ?d ! ?i \<le> 510"
    by linarith+
  then have "int_of_float (truediv_2 (?d ! (?i - 1) + ?d ! ?i)) = (?d ! (?i - 1) + ?d ! ?i) div 2"
    by (rule truediv_2_small)
  with False n assms show ?thesis
    by (simp add: median_def integer_median_def Let_def)
qed

lemma py_min_eq: "xs \<noteq> [] \<Longrightarrow> py_min xs = Inr (Min (set xs))"
proof (cases xs)
  case Nil
  assume "xs \<noteq> []"
  with Nil show ?thesis by simp
next
  case (Cons x r)
  then show ?thesis
    using Min.set_eq_fold [of x r] by (simp add: py_min_def)
qed

lemma py_max_eq: "xs \<noteq> [] \<Longrightarrow> py_max xs = Inr (Max (set xs))"
proof (cases xs)
  case Nil
  assume "xs \<noteq> []"
  with Nil show ?thesis by simp
next
  case (Cons x r)
  then show ?thesis
    using Max.set_eq_fold [of x r] by (simp add: py_max_def)
qed

lemma calibrate_statistics_eq:
  assumes "median (x_values c) = Inr mx" and "median (y_values c) = Inr my"
    and "x_values c \<noteq> []" and "y_values c \<noteq> []"
  shows "calibrate_statistics c =
     Inr \<lparr>center_x = py_int mx, center_y = py_int my,
          deadzone = max (Max (set (x_values c)) - Min (set (x_values c)))
                         (Max (set (y_values c)) - Min (set (y_values c))) + 5,
          x_range = (Min (set (x_values c)), Max (set (x_values c))),
          y_range = (Min (set (y_values c)), Max (set (y_values c)))\<rparr>"
  using assms by (simp add: calibrate_statistics_def py_min_eq py_max_eq Let_def)

subsection \<open>Buttons and reconnection\<close>

lemma click_events_send_movement [simp]: "click_events (send_movement x y) = []"
  by (auto simp: click_events_def send_movement_def)

lemma click_events_Nil [simp]: "click_events [] = []"
  by (simp add: click_events_def)

lemma click_events_Cons [simp]: "click_events (e # es) = click_of e @ click_events es"
  by (simp add: click_events_def)

lemma click_events_append [simp]: "click_events (a @ b) = click_events a @ click_events b"
  by (simp add: click_events_def)

lemma handle_buttons_client:
  "handle_buttons (s\<lparr>client_connected := f\<rparr>) b =
     ((fst (handle_buttons s b))\<lparr>client_connected := f\<rparr>, snd (handle_buttons s b))"
  by (simp add: handle_buttons_def)

lemma process_packet_client:
  assumes "process_packet s data = Inr (s', out)"
  shows "process_packet (s\<lparr>client_connected := f\<rparr>) data = Inr (s'\<lparr>client_connected := f\<rparr>, out)"
proof (cases "5 \<le> length data")
  case True
  with assms show ?thesis
    by (auto simp: process_packet_long handle_buttons_client)
next
  case False
  with assms show ?thesis
    by (auto simp: process_packet_short)
qed

lemma notification_handler_client:
  assumes "notification_handler s data = Inr (s', out)"
  shows "notification_handler (s\<lparr>client_connected := f\<rparr>) data =
           Inr (s'\<lparr>client_connected := f\<rparr>, out)"
proof (cases "(counter s + 1) mod 3 = 0")
  case True
  with assms have "process_packet (s\<lparr>counter := counter s + 1\<rparr>) data = Inr (s', out)"
    by (simp add: handler_process)
  then have "process_packet (s\<lparr>counter := counter s + 1\<rparr>\<lparr>client_connected := f\<rparr>) data =
          Inr (s'\<lparr>client_connected := f\<rparr>, out)"
    by (rule process_packet_client)
  moreover have "s\<lparr>client_connected := f\<rparr>\<lparr>counter := counter (s\<lparr>client_connected := f\<rparr>) + 1\<rparr> =
          s\<lparr>counter := counter s + 1\<rparr>\<lparr>client_connected := f\<rparr>"
    by simp
  moreover have "notification_handler (s\<lparr>client_connected := f\<rparr>) data =
          process_packet (s\<lparr>client_connected := f\<rparr>
                           \<lparr>counter := counter (s\<lparr>client_connected := f\<rparr>) + 1\<rparr>) data"
    by (rule handler_process) (use True in simp)
  ultimately show ?thesis
    by (simp only:)
next
  case False
  with assms show ?thesis
    by (auto simp: handler_skip)
qed

lemma deliver_client:
  assumes "deliver s ps = Inr (s', outs)"
  shows "deliver (s\<lparr>client_connected := f\<rparr>) ps = Inr (s'\<lparr>client_connected := f\<rparr>, outs)"
  using assms
proof (induction ps arbitrary: s s' outs)
  case Nil
  then show ?case by auto
next
  case (Cons p ps)
  obtain sa out where h: "notification_handler s p = Inr (sa, out)"
    using notification_handler_total by blast
  obtain sb os where d: "deliver sa ps = Inr (sb, os)"
    using deliver_total by blast
  from Cons.prems h d have e: "sb = s'" "outs = out # os" by simp_all
  from notification_handler_client [OF h, of f] Cons.IH [OF d] e show ?case
    by simp
qed

lemma reconnect_eq: "run_step (connection_lost s) = s\<lparr>client_connected := True\<rparr>"
  by (simp add: run_step_def connection_lost_def connect_def)

lemma process_packet_centered:
  assumes "y_center s = 118" and "y_deadzone s = 15"
  shows "process_packet s [0, m, 0, 4, 118] = Inr (handle_buttons s (uint m))"
proof -
  have "y_movement s 118 = 0"
    using assms by (simp add: y_movement_in_deadzone)
  moreover have "get_x_direction s 4 = (''CENTER'', 0)"
    by (simp add: get_x_direction_def py_range_def)
  ultimately show ?thesis
    by (simp add: process_packet_long send_movement_def)
qed

subsection \<open>The product with 0.4 is exact after truncation\<close>

lemma bit_length_lower: "0 < n \<Longrightarrow> 2 ^ (bit_length n - 1) \<le> n"
proof (induction n rule: bit_length.induct)
  case (1 n)
  show ?case
  proof (cases "n div 2 = 0")
    case True
    with 1(2) have "n = Suc 0" by (cases n) auto
    moreover have "bit_length (Suc 0) = Suc 0"
      by (simp add: bit_length.simps [of "Suc 0"] bit_length_0)
    ultimately show ?thesis by simp
  next
    case False
    then have pos: "0 < n div 2" by simp
    with 1 have ih: "2 ^ (bit_length (n div 2) - 1) \<le> n div 2" by simp
    have bl: "bit_length n = Suc (bit_length (n div 2))"
      using 1(2) by (subst bit_length.simps) simp
    have "0 < bit_length (n div 2)"
      using pos by (subst bit_length.simps) simp
    then have "2 ^ (bit_length n - 1) = 2 * 2 ^ (bit_length (n div 2) - 1)"
      unfolding bl by (cases "bit_length (n div 2)") simp_all
    also have "\<dots> \<le> 2 * (n div 2)" using ih by simp
    also have "\<dots> \<le> n" by simp
    finally show ?thesis .
  qed
qed

lemma double_round_cases:
  assumes "0 \<le> m"
  shows "\<exists>sh q. double_round \<lparr>mant = m, expo = e\<rparr> = \<lparr>mant = q, expo = e + int sh\<rparr>
          \<and> (q = m div 2 ^ sh \<or> q = m div 2 ^ sh + 1)
          \<and> (sh = 0 \<longrightarrow> q = m) \<and> 2 ^ sh * 2 ^ 52 \<le> max m (2 ^ 52) \<and> 0 \<le> q"
proof (cases "bit_length (nat \<bar>m\<bar>) \<le> 53")
  case True
  then have "double_round \<lparr>mant = m, expo = e\<rparr> = \<lparr>mant = m, expo = e + int 0\<rparr>"
    by (simp add: double_round_def)
  with assms show ?thesis
    by (intro exI [of _ 0] exI [of _ m]) simp
next
  case False
  define sh where "sh = bit_length (nat \<bar>m\<bar>) - 53"
  define a where "a = nat \<bar>m\<bar>"
  have m: "m = int a" using assms by (simp add: a_def)
  from False have n: "bit_length a = 53 + sh" "0 < sh"
    by (simp_all add: sh_def a_def)
  then have "0 < a" by (cases "a = 0") (simp_all add: bit_length_0)
  then have "2 ^ (bit_length a - 1) \<le> a" by (rule bit_length_lower)
  with n have "(2::nat) ^ (52 + sh) \<le> a" by simp
  then have "int (2 ^ (52 + sh)) \<le> int a" by (simp only: of_nat_le_iff)
  then have lo: "2 ^ sh * 2 ^ 52 \<le> m"
    by (simp add: m power_add mult.commute)
  have pos: "0 < m" using \<open>0 < a\<close> m by simp
  define q' where "q' = (if a mod 2 ^ sh > 2 ^ (sh - 1) \<or> (a mod 2 ^ sh = 2 ^ (sh - 1) \<and> odd (a div 2 ^ sh))
                         then a div 2 ^ sh + 1 else a div 2 ^ sh)"
  have "sgn (int a) = 1" using \<open>0 < a\<close> by simp
  then have "double_round \<lparr>mant = int a, expo = e\<rparr> = \<lparr>mant = int q', expo = e + int sh\<rparr>"
    using n by (simp add: double_round_def Let_def q'_def)
  then have r: "double_round \<lparr>mant = m, expo = e\<rparr> = \<lparr>mant = int q', expo = e + int sh\<rparr>"
    by (simp only: m)
  have d: "int (a div 2 ^ sh) = m div 2 ^ sh"
    by (simp add: m zdiv_int)
  have "int q' = m div 2 ^ sh \<or> int q' = m div 2 ^ sh + 1"
    unfolding q'_def d [symmetric] by simp
  with r lo n show ?thesis
    by (intro exI [of _ sh] exI [of _ "int q'"]) simp
qed

lemma int_div_eq_by_bounds:
  fixes q a D :: int
  assumes "a * D \<le> q" and "q < (a + 1) * D"
  shows "q div D = a"
proof (rule int_div_pos_eq [where r = "q - D * a"])
  show "q = D * a + (q - D * a)" by simp
  show "0 \<le> q - D * a" using assms(1) by (simp add: mult.commute)
  show "q - D * a < D" using assms(2) by (simp add: algebra_simps)
qed

lemma int_of_float_nonneg:
  assumes "0 \<le> q" and "e < 0"
  shows "int_of_float \<lparr>mant = q, expo = e\<rparr> = q div 2 ^ nat (- e)"
  using assms by (cases "q = 0") (simp_all add: int_of_float_def sgn_if)

lemma float_of_int_small:
  assumes "\<bar>k\<bar> < 2 ^ 53"
  shows "float_of_int k = \<lparr>mant = k, expo = 0\<rparr>"
proof -
  have "nat \<bar>k\<bar> < 2 ^ 53" using assms by simp
  then have "bit_length (nat \<bar>k\<bar>) \<le> 53" by (rule bit_length_le)
  then show ?thesis
    by (simp add: float_of_int_def double_round_def)
qed

lemma float_0_4_product_pos:
  assumes "0 < k" and "k < 2 ^ 20"
  shows "int_of_float (float_mul (float_of_int k) float_0_4) = (2 * k) div 5"
proof -
  define P where "P = k * 3602879701896397"
  define a where "a = (2 * k) div 5"
  have k20: "k < 1048576" using assms(2) by simp
  have a: "5 * a \<le> 2 * k" "2 * k \<le> 5 * a + 4"
    unfolding a_def by presburger+
  have e: "5 * P = 2 * k * 9007199254740992 + k"
    by (simp add: P_def)
  have "5 * a * 9007199254740992 \<le> 2 * k * 9007199254740992"
    using a(1) by simp
  with e assms(1) have L0: "a * 9007199254740992 \<le> P"
    by linarith
  have "2 * k * 9007199254740992 \<le> (5 * a + 4) * 9007199254740992"
    using a(2) by simp
  then have "5 * P + 5 * k < 5 * ((a + 1) * 9007199254740992)"
    using e k20 by (simp add: algebra_simps)
  then have U0: "P + k < (a + 1) * 9007199254740992"
    by linarith
  have "float_of_int k = \<lparr>mant = k, expo = 0\<rparr>"
    using assms k20 by (intro float_of_int_small) simp
  then have fm: "float_mul (float_of_int k) float_0_4 = double_round \<lparr>mant = P, expo = - 53\<rparr>"
    by (simp add: float_mul_def float_0_4_def P_def)
  have "0 \<le> P" using assms(1) by (simp add: P_def)
  from double_round_cases [OF this, of "- 53"] obtain sh q where
    r: "double_round \<lparr>mant = P, expo = - 53\<rparr> = \<lparr>mant = q, expo = - 53 + int sh\<rparr>" and
    q: "q = P div 2 ^ sh \<or> q = P div 2 ^ sh + 1" and
    q0: "sh = 0 \<longrightarrow> q = P" and
    lo: "2 ^ sh * 2 ^ 52 \<le> max P (2 ^ 52)" and
    qn: "0 \<le> q"
    by blast
  define E :: int where "E = 2 ^ sh"
  have E1: "1 \<le> E" by (simp add: E_def)
  have Ek: "E \<le> k \<or> sh = 0"
  proof (cases "sh = 0")
    case False
    then have "(2::int) ^ 1 \<le> 2 ^ sh" by (intro power_increasing) simp_all
    then have "2 \<le> E" by (simp add: E_def)
    with lo have "E * 4503599627370496 \<le> P"
      by (simp add: E_def max_def split: if_splits)
    then show ?thesis
      using assms(1) unfolding P_def by linarith
  qed simp
  have sh20: "sh < 20"
  proof (cases "sh = 0")
    case False
    with Ek k20 have "(2::int) ^ sh < 2 ^ 20" by (simp add: E_def)
    then show ?thesis by (rule power_less_imp_less_exp [rotated]) simp
  qed simp
  define D :: int where "D = 2 ^ (53 - sh)"
  have DE: "D * E = 9007199254740992"
  proof -
    have "D * E = 2 ^ (53 - sh + sh)" by (simp add: D_def E_def power_add)
    also have "53 - sh + sh = 53" using sh20 by simp
    finally show ?thesis by simp
  qed
  have D0: "0 < D" by (simp add: D_def)
  define Q where "Q = P div E"
  have Q1: "E * Q \<le> P" and Q2: "P < E * Q + E"
  proof -
    have "P = E * Q + P mod E" by (simp add: Q_def)
    moreover have "0 \<le> P mod E" "P mod E < E" using E1 by simp_all
    ultimately show "E * Q \<le> P" "P < E * Q + E" by linarith+
  qed
  have lower: "a * D \<le> Q"
  proof (rule ccontr)
    assume "\<not> a * D \<le> Q"
    then have "Q + 1 \<le> a * D" by simp
    then have le: "E * (Q + 1) \<le> E * (a * D)"
      using E1 by (intro mult_left_mono) simp_all
    have "E * Q + E = E * (Q + 1)" by (simp add: algebra_simps)
    also note le
    also have "E * (a * D) = a * (D * E)" by (simp add: mult_ac)
    also have "\<dots> = a * 9007199254740992" by (simp only: DE)
    finally have "E * Q + E \<le> a * 9007199254740992" .
    with Q2 L0 show False by linarith
  qed
  have upper: "Q + 1 < (a + 1) * D" if "sh \<noteq> 0"
  proof (rule ccontr)
    assume "\<not> Q + 1 < (a + 1) * D"
    then have "(a + 1) * D \<le> Q + 1" by simp
    then have le: "E * ((a + 1) * D) \<le> E * (Q + 1)"
      using E1 by (intro mult_left_mono) simp_all
    have "(a + 1) * (D * E) = E * ((a + 1) * D)" by (simp add: mult_ac)
    then have "(a + 1) * 9007199254740992 = E * ((a + 1) * D)" by (simp only: DE)
    also note le
    also have "E * (Q + 1) = E * Q + E" by (simp add: algebra_simps)
    finally have "(a + 1) * 9007199254740992 \<le> E * Q + E" .
    with Q1 U0 Ek that show False by linarith
  qed
  have "a * D \<le> q \<and> q < (a + 1) * D"
  proof (cases "sh = 0")
    case True
    then have "E = 1" "D = 9007199254740992" by (simp_all add: E_def D_def)
    with True q0 L0 U0 assms(1) show ?thesis by simp
  next
    case False
    from q have "Q \<le> q" "q \<le> Q + 1" by (auto simp: Q_def E_def)
    with lower upper [OF False] show ?thesis by linarith
  qed
  then have "q div D = a" by (intro int_div_eq_by_bounds) simp_all
  moreover have "int_of_float \<lparr>mant = q, expo = - 53 + int sh\<rparr> = q div 2 ^ nat (- (- 53 + int sh))"
    using qn sh20 by (intro int_of_float_nonneg) simp_all
  moreover have "nat (- (- 53 + int sh)) = 53 - sh" using sh20 by simp
  ultimately show ?thesis
    by (simp add: fm r D_def a_def)
qed

lemma double_round_neg:
  "double_round \<lparr>mant = - m, expo = e\<rparr> =
     \<lparr>mant = - mant (double_round \<lparr>mant = m, expo = e\<rparr>),
      expo = expo (double_round \<lparr>mant = m, expo = e\<rparr>)\<rparr>"
  by (simp add: double_round_def Let_def)

lemma int_of_float_neg:
  "int_of_float \<lparr>mant = - m, expo = e\<rparr> = - int_of_float \<lparr>mant = m, expo = e\<rparr>"
  by (simp add: int_of_float_def)

lemma float_mul_neg:
  "int_of_float (float_mul (float_of_int (- k)) b) = - int_of_float (float_mul (float_of_int k) b)"
proof -
  define d where "d = double_round \<lparr>mant = k, expo = 0\<rparr>"
  define p where "p = double_round \<lparr>mant = mant d * mant b, expo = expo d + expo b\<rparr>"
  have "float_of_int (- k) = \<lparr>mant = - mant d, expo = expo d\<rparr>"
    by (simp add: float_of_int_def double_round_neg d_def)
  then have "float_mul (float_of_int (- k)) b = \<lparr>mant = - mant p, expo = expo p\<rparr>"
    by (simp add: float_mul_def double_round_neg p_def)
  moreover have "float_mul (float_of_int k) b = \<lparr>mant = mant p, expo = expo p\<rparr>"
    by (simp add: float_mul_def float_of_int_def d_def p_def)
  ultimately show ?thesis
    by (simp add: int_of_float_neg)
qed

lemma float_0_4_product:
  assumes "\<bar>k\<bar> < 2 ^ 20"
  shows "int_of_float (float_mul (float_of_int k) float_0_4) = sgn k * ((2 * \<bar>k\<bar>) div 5)"
proof -
  consider "k = 0" | "0 < k" | "k < 0" by linarith
  then show ?thesis
  proof cases
    case 1
    then show ?thesis by (simp add: float_mul_zero)
  next
    case 2
    with assms have "k < 2 ^ 20" by simp
    with 2 float_0_4_product_pos [of k] show ?thesis by simp
  next
    case 3
    with assms have "0 < - k" "- k < 2 ^ 20" by simp_all
    then have "int_of_float (float_mul (float_of_int (- k)) float_0_4) = (2 * (- k)) div 5"
      by (rule float_0_4_product_pos)
    with float_mul_neg [of "- k" float_0_4] 3 show ?thesis
      by (simp add: sgn_if)
  qed
qed

lemma trunc_two_fifths:
  "trunc_toward_zero (of_int k * 2 / 5) = sgn k * ((2 * \<bar>k\<bar>) div 5)"
proof (cases "0 \<le> k")
  case True
  have "\<lfloor>(of_int (2 * k) :: real) / of_int 5\<rfloor> = (2 * k) div 5"
    by (rule floor_divide_of_int_eq)
  with True show ?thesis
    by (cases "k = 0") (simp_all add: trunc_toward_zero_def sgn_if mult.commute)
next
  case False
  have "(of_int k :: real) * 2 / 5 = - (of_int (2 * (- k)) / of_int 5)" by simp
  then have "\<lceil>(of_int k :: real) * 2 / 5\<rceil> = - \<lfloor>(of_int (2 * (- k)) :: real) / of_int 5\<rfloor>"
    by (simp only: ceiling_minus)
  also have "\<dots> = - ((2 * (- k)) div 5)"
    by (simp only: floor_divide_of_int_eq)
  finally have "\<lceil>(of_int k :: real) * 2 / 5\<rceil> = - ((2 * (- k)) div 5)" .
  moreover from False have "(of_int k :: real) * 2 / 5 < 0" by simp
  ultimately show ?thesis
    using False by (simp add: trunc_toward_zero_def sgn_if)
qed

lemma y_movement_float_0_4:
  assumes "y_sensitivity s = float_0_4" and "\<bar>y_raw - y_center s\<bar> < 2 ^ 20"
  shows "y_movement s y_raw =
           (if \<bar>y_raw - y_center s\<bar> < y_deadzone s then 0
            else trunc_toward_zero (of_int (y_raw - y_center s) * 2 / 5))"
proof (cases "\<bar>y_raw - y_center s\<bar> < y_deadzone s")
  case True
  then show ?thesis by (simp add: y_movement_in_deadzone)
next
  case False
  then have "y_movement s y_raw =
      int_of_float (float_mul (float_of_int (y_raw - y_center s)) float_0_4)"
    using assms(1) by (simp add: y_movement_outside)
  also have "\<dots> = sgn (y_raw - y_center s) * ((2 * \<bar>y_raw - y_center s\<bar>) div 5)"
    using assms(2) by (rule float_0_4_product)
  also have "\<dots> = trunc_toward_zero (of_int (y_raw - y_center s) * 2 / 5)"
    by (rule trunc_two_fifths [symmetric])
  finally show ?thesis
    using False by (simp only: if_False)
qed

section \<open>Theorems\<close>

text \<open>
  C4. On every nibble value 0..15 the X classifier returns exactly one of LEFT, CENTER
  and RIGHT: 0 and 1 give LEFT with magnitude \<open>- x_speed\<close>, 2 and 3 give LEFT with
  magnitude \<open>- x_speed\<close>, 4..7 give CENTER with magnitude 0, and 8..15 give RIGHT with
  magnitude \<open>x_speed\<close>.
\<close>

theorem get_x_direction_total:
  assumes "0 \<le> n" and "n \<le> 15"
  shows "get_x_direction s n =
           (if n \<in> {0, 1} then (''LEFT'', - x_speed s)
            else if n \<in> {2, 3} then (''LEFT'', - x_speed s)
            else if n \<in> {4, 5, 6, 7} then (''CENTER'', 0)
            else (''RIGHT'', x_speed s))
         \<and> fst (get_x_direction s n) \<in> {''LEFT'', ''CENTER'', ''RIGHT''}"
  using assms by (auto simp: get_x_direction_def py_range_def)

theorem get_x_direction_total_witness:
  "(0::int) \<le> 9 \<and> (9::int) \<le> 15 \<and> get_x_direction init 9 = (''RIGHT'', 20)
   \<and> fst (get_x_direction init 9) \<in> {''LEFT'', ''CENTER'', ''RIGHT''}"
  using get_x_direction_total [of 9 init] by (simp add: init_def)

text \<open>
  C7. A packet shorter than five bytes that reaches the handler is never decoded: the
  handler raises nothing, writes no event, and changes nothing but the frame counter.
\<close>

theorem short_packet_ignored:
  assumes "length data < 5"
  shows "notification_handler s data = Inr (s\<lparr>counter := counter s + 1\<rparr>, [])"
  using assms by (simp add: notification_handler_def process_packet_short Let_def)

theorem short_packet_ignored_witness:
  "length [1, 2, 3 :: byte] < 5
   \<and> notification_handler (init\<lparr>counter := 2\<rparr>) [1, 2, 3] = Inr (init\<lparr>counter := 3\<rparr>, [])"
  using short_packet_ignored [of "[1, 2, 3]" "init\<lparr>counter := 2\<rparr>"] by (simp add: init_def)

text \<open>
  C5. For every byte \<open>y_raw\<close> and every centre, deadzone and sensitivity, the Y movement
  is 0 when \<open>\<bar>y_raw - y_center\<bar> < y_deadzone\<close> (strictly), and otherwise the product
  of the offset and the sensitivity with its fraction cut off toward zero. With the
  sensitivity 0.4 the rounding of the binary64 product never shows in the result: it is
  the exact \<open>offset * 2 / 5\<close> cut off toward zero. With centre 118, deadzone 15 and
  sensitivity 0.4 the byte 90 gives -11, where the floor of the same product is -12.
\<close>

theorem y_movement_deadzone_truncation:
  "y_movement s (uint (y_raw :: byte)) =
     (if \<bar>uint y_raw - y_center s\<bar> < y_deadzone s then 0
      else trunc_toward_zero
             (double_val (float_mul (float_of_int (uint y_raw - y_center s)) (y_sensitivity s))))
   \<and> (y_sensitivity s = float_0_4 \<and> \<bar>uint y_raw - y_center s\<bar> < 2 ^ 20 \<longrightarrow>
        y_movement s (uint y_raw) =
          (if \<bar>uint y_raw - y_center s\<bar> < y_deadzone s then 0
           else trunc_toward_zero (of_int (uint y_raw - y_center s) * 2 / 5)))
   \<and> y_movement init (uint (90 :: byte)) = - 11
   \<and> \<lfloor>double_val (float_mul (float_of_int (uint (90 :: byte) - y_center init))
                              (y_sensitivity init))\<rfloor> = - 12"
proof (intro conjI impI)
  show "y_movement s (uint y_raw) =
     (if \<bar>uint y_raw - y_center s\<bar> < y_deadzone s then 0
      else trunc_toward_zero
             (double_val (float_mul (float_of_int (uint y_raw - y_center s)) (y_sensitivity s))))"
    by (simp add: y_movement_in_deadzone y_movement_outside int_of_float_trunc)
next
  assume "y_sensitivity s = float_0_4 \<and> \<bar>uint y_raw - y_center s\<bar> < 2 ^ 20"
  then show "y_movement s (uint y_raw) =
          (if \<bar>uint y_raw - y_center s\<bar> < y_deadzone s then 0
           else trunc_toward_zero (of_int (uint y_raw - y_center s) * 2 / 5))"
    by (intro y_movement_float_0_4) simp_all
next
  show "y_movement init (uint (90 :: byte)) = - 11"
    using y_movement_init_90 by simp
next
  have "uint (90 :: byte) - y_center init = - 28" "y_sensitivity init = float_0_4"
    by (simp_all add: init_def)
  then show "\<lfloor>double_val (float_mul (float_of_int (uint (90 :: byte) - y_center init))
                              (y_sensitivity init))\<rfloor> = - 12"
    using floor_product_minus_28 by (simp only:)
qed

theorem y_movement_deadzone_truncation_witness:
  "y_movement init (uint (130 :: byte)) = 0
   \<and> \<not> \<bar>uint (140 :: byte) - y_center init\<bar> < y_deadzone init
   \<and> trunc_toward_zero
        (double_val (float_mul (float_of_int (uint (140 :: byte) - y_center init))
                               (y_sensitivity init))) = 8
   \<and> y_sensitivity init = float_0_4
   \<and> \<bar>uint (140 :: byte) - y_center init\<bar> < 2 ^ 20
   \<and> trunc_toward_zero (of_int (uint (140 :: byte) - y_center init) * 2 / 5) = 8"
proof -
  have c: "y_center init = 118" "y_deadzone init = 15" "y_sensitivity init = float_0_4"
    by (simp_all add: init_def)
  have out: "\<not> \<bar>uint (140 :: byte) - y_center init\<bar> < y_deadzone init"
    using c by simp
  have small: "\<bar>uint (140 :: byte) - y_center init\<bar> < 2 ^ 20"
    using c by simp
  have m: "y_movement init (uint (140 :: byte)) = 8"
    using y_movement_init_140 by simp
  note t = y_movement_deadzone_truncation [of init 140]
  have "y_movement init (uint (130 :: byte)) = 0"
    using y_movement_deadzone_truncation [of init 130, THEN conjunct1] c by simp
  moreover have "trunc_toward_zero
        (double_val (float_mul (float_of_int (uint (140 :: byte) - y_center init))
                               (y_sensitivity init))) = 8"
    using t [THEN conjunct1] out m by (simp only: if_False)
  moreover have "trunc_toward_zero (of_int (uint (140 :: byte) - y_center init) * 2 / 5) = 8"
    using t [THEN conjunct2, THEN conjunct1] out m c(3) small by (simp only: if_False simp_thms)
  ultimately show ?thesis
    using out small c(3) by blast
qed

text \<open>
  C9. Every delivered packet, whatever its length, adds exactly one to the frame counter,
  and the counter alone decides which packet is processed: after \<open>k\<close> packets of any
  lengths the next one is handed to the decoding body exactly when the old counter plus
  \<open>k + 1\<close> is a multiple of 3, and is otherwise dropped with only the counter changed.
  A short packet therefore uses up a slot of the cycle of three: the packets that follow
  it are handled as they would be from a counter one higher, so the processed frames
  follow the number of all packets, not the number of well-formed ones.
\<close>

theorem counter_counts_every_packet:
  "(\<exists>s' out. notification_handler s data = Inr (s', out) \<and> counter s' = counter s + 1)
   \<and> (\<exists>s' outs. deliver s ps = Inr (s', outs) \<and> counter s' = counter s + int (length ps))
   \<and> (k < length ps \<longrightarrow>
        (\<exists>sk outs_k s' outs.
           deliver s (take k ps) = Inr (sk, outs_k) \<and> counter sk = counter s + int k
           \<and> deliver s ps = Inr (s', outs)
           \<and> notification_handler sk (ps ! k) =
               (if (counter s + int k + 1) mod 3 = 0
                then process_packet (sk\<lparr>counter := counter s + int k + 1\<rparr>) (ps ! k)
                else Inr (sk\<lparr>counter := counter s + int k + 1\<rparr>, []))
           \<and> ((counter s + int k + 1) mod 3 \<noteq> 0 \<longrightarrow> outs ! k = [])))
   \<and> (length p < 5 \<longrightarrow>
        notification_handler s p = Inr (s\<lparr>counter := counter s + 1\<rparr>, [])
        \<and> (\<exists>s' outs. deliver (s\<lparr>counter := counter s + 1\<rparr>) ps = Inr (s', outs)
              \<and> deliver s (p # ps) = Inr (s', [] # outs)))"
proof (intro conjI impI)
  show "\<exists>s' out. notification_handler s data = Inr (s', out) \<and> counter s' = counter s + 1"
    by (rule notification_handler_total)
next
  show "\<exists>s' outs. deliver s ps = Inr (s', outs) \<and> counter s' = counter s + int (length ps)"
    using deliver_total [of s ps] by blast
next
  assume "k < length ps"
  then obtain sk outs_k s1 s' outs where
    a: "deliver s (take k ps) = Inr (sk, outs_k)" and
    b: "counter sk = counter s + int k" and
    c: "notification_handler sk (ps ! k) = Inr (s1, outs ! k)" and
    d: "deliver s ps = Inr (s', outs)"
    using deliver_nth by blast
  from b have e: "counter sk + 1 = counter s + int k + 1" by simp
  have f: "notification_handler sk (ps ! k) =
               (if (counter s + int k + 1) mod 3 = 0
                then process_packet (sk\<lparr>counter := counter s + int k + 1\<rparr>) (ps ! k)
                else Inr (sk\<lparr>counter := counter s + int k + 1\<rparr>, []))"
  proof (cases "(counter s + int k + 1) mod 3 = 0")
    case True
    with e have "(counter sk + 1) mod 3 = 0" by simp
    from handler_process [OF this, of "ps ! k"] e True show ?thesis by simp
  next
    case False
    with e have "(counter sk + 1) mod 3 \<noteq> 0" by simp
    from handler_skip [OF this, of "ps ! k"] e False show ?thesis by simp
  qed
  have g: "(counter s + int k + 1) mod 3 \<noteq> 0 \<longrightarrow> outs ! k = []"
    using c f by auto
  from a b d f g have "deliver s (take k ps) = Inr (sk, outs_k) \<and> counter sk = counter s + int k
           \<and> deliver s ps = Inr (s', outs)
           \<and> notification_handler sk (ps ! k) =
               (if (counter s + int k + 1) mod 3 = 0
                then process_packet (sk\<lparr>counter := counter s + int k + 1\<rparr>) (ps ! k)
                else Inr (sk\<lparr>counter := counter s + int k + 1\<rparr>, []))
           \<and> ((counter s + int k + 1) mod 3 \<noteq> 0 \<longrightarrow> outs ! k = [])"
    by (intro conjI)
  then show "\<exists>sk outs_k s' outs.
           deliver s (take k ps) = Inr (sk, outs_k) \<and> counter sk = counter s + int k
           \<and> deliver s ps = Inr (s', outs)
           \<and> notification_handler sk (ps ! k) =
               (if (counter s + int k + 1) mod 3 = 0
                then process_packet (sk\<lparr>counter := counter s + int k + 1\<rparr>) (ps ! k)
                else Inr (sk\<lparr>counter := counter s + int k + 1\<rparr>, []))
           \<and> ((counter s + int k + 1) mod 3 \<noteq> 0 \<longrightarrow> outs ! k = [])"
    by (intro exI)
next
  assume short: "length p < 5"
  show h: "notification_handler s p = Inr (s\<lparr>counter := counter s + 1\<rparr>, [])"
  proof (cases "(counter s + 1) mod 3 = 0")
    case True
    then show ?thesis
      using short by (simp add: handler_process process_packet_short)
  next
    case False
    then show ?thesis by (simp add: handler_skip)
  qed
  obtain s' outs where "deliver (s\<lparr>counter := counter s + 1\<rparr>) ps = Inr (s', outs)"
    using deliver_total by blast
  with h show "\<exists>s' outs. deliver (s\<lparr>counter := counter s + 1\<rparr>) ps = Inr (s', outs)
              \<and> deliver s (p # ps) = Inr (s', [] # outs)"
    by simp
qed

theorem counter_counts_every_packet_witness:
  "(2 :: nat) < length [[], [7], [0, 1, 0, 9, 140 :: byte]]
   \<and> length ([] :: packet) < 5
   \<and> (counter init + int 2 + 1) mod 3 = 0
   \<and> notification_handler init [] = Inr (init\<lparr>counter := 1\<rparr>, [])
   \<and> deliver init [[], [7], [0, 1, 0, 9, 140]] =
       Inr (init\<lparr>counter := 3, last_button_state := 1\<rparr>,
            [[], [],
             [Write EV_REL REL_X 20, Write EV_REL REL_Y 8, Syn,
              Write EV_KEY BTN_LEFT 1, Write EV_KEY BTN_RIGHT 0, Syn]])
   \<and> deliver init [[0, 1, 0, 9, 140], [0, 1, 0, 9, 140], [], [0, 1, 0, 9, 140]] =
       Inr (init\<lparr>counter := 4\<rparr>, [[], [], [], []])
   \<and> (\<exists>sk outs_k. deliver init (take 2 [[], [7], [0, 1, 0, 9, 140]]) = Inr (sk, outs_k)
         \<and> counter sk = 2
         \<and> notification_handler sk ([[], [7], [0, 1, 0, 9, 140]] ! 2) =
             process_packet (sk\<lparr>counter := 3\<rparr>) [0, 1, 0, 9, 140])
   \<and> (\<exists>s' outs. deliver (init\<lparr>counter := 1\<rparr>) [[7], [0, 1, 0, 9, 140]] = Inr (s', outs)
         \<and> deliver init [[], [7], [0, 1, 0, 9, 140]] = Inr (s', [] # outs))"
proof -
  have c: "counter init = 0" "last_button_state init = 0"
    by (simp_all add: init_def)
  have k: "(2 :: nat) < length [[], [7], [0, 1, 0, 9, 140 :: byte]]" by simp
  have l: "length ([] :: packet) < 5" by simp
  have m: "(counter init + int 2 + 1) mod 3 = 0" by (simp add: c)
  have "process_packet (init\<lparr>counter := 3\<rparr>) [0, 1, 0, 9, 140] =
       Inr (init\<lparr>counter := 3, last_button_state := 1\<rparr>,
            [Write EV_REL REL_X 20, Write EV_REL REL_Y 8, Syn,
             Write EV_KEY BTN_LEFT 1, Write EV_KEY BTN_RIGHT 0, Syn])"
    by (simp add: process_packet_long y_movement_init_140 get_x_direction_init
        handle_buttons_def send_movement_def c)
  then have d: "deliver init [[], [7], [0, 1, 0, 9, 140]] =
       Inr (init\<lparr>counter := 3, last_button_state := 1\<rparr>,
            [[], [],
             [Write EV_REL REL_X 20, Write EV_REL REL_Y 8, Syn,
              Write EV_KEY BTN_LEFT 1, Write EV_KEY BTN_RIGHT 0, Syn]])"
    by (simp add: handler_skip handler_process c)
  have d': "deliver init [[0, 1, 0, 9, 140], [0, 1, 0, 9, 140], [], [0, 1, 0, 9, 140]] =
       Inr (init\<lparr>counter := 4\<rparr>, [[], [], [], []])"
    by (simp add: handler_skip handler_process process_packet_short c)
  have e: "counter init + 1 = 1" "counter init + int 2 = 2" "counter init + int 2 + 1 = 3"
    by (simp_all add: c)
  note t = counter_counts_every_packet [of init "[]" "[[], [7], [0, 1, 0, 9, 140]]" 2 "[]"]
  have n: "[[], [7], [0, 1, 0, 9, 140 :: byte]] ! 2 = [0, 1, 0, 9, 140]" by simp
  from t [THEN conjunct2, THEN conjunct2, THEN conjunct1, THEN mp, OF k]
  obtain sk outs_k where
    o1: "deliver init (take 2 [[], [7], [0, 1, 0, 9, 140]]) = Inr (sk, outs_k)" and
    o2: "counter sk = counter init + int 2" and
    o3: "notification_handler sk ([[], [7], [0, 1, 0, 9, 140]] ! 2) =
       (if (counter init + int 2 + 1) mod 3 = 0
        then process_packet (sk\<lparr>counter := counter init + int 2 + 1\<rparr>)
               ([[], [7], [0, 1, 0, 9, 140]] ! 2)
        else Inr (sk\<lparr>counter := counter init + int 2 + 1\<rparr>, []))"
    by (elim exE conjE)
  from o2 have o2': "counter sk = 2"
    by (simp only: e(2))
  from o3 have "notification_handler sk ([[], [7], [0, 1, 0, 9, 140]] ! 2) =
        process_packet (sk\<lparr>counter := counter init + int 2 + 1\<rparr>)
               ([[], [7], [0, 1, 0, 9, 140]] ! 2)"
    by (simp only: if_P [OF m])
  then have o3': "notification_handler sk ([[], [7], [0, 1, 0, 9, 140]] ! 2) =
             process_packet (sk\<lparr>counter := 3\<rparr>) [0, 1, 0, 9, 140]"
    by (simp only: e(3) n)
  from o1 o2' o3' have "deliver init (take 2 [[], [7], [0, 1, 0, 9, 140]]) = Inr (sk, outs_k)
         \<and> counter sk = 2
         \<and> notification_handler sk ([[], [7], [0, 1, 0, 9, 140]] ! 2) =
             process_packet (sk\<lparr>counter := 3\<rparr>) [0, 1, 0, 9, 140]"
    by (intro conjI)
  then have p3: "\<exists>sk outs_k. deliver init (take 2 [[], [7], [0, 1, 0, 9, 140]]) = Inr (sk, outs_k)
         \<and> counter sk = 2
         \<and> notification_handler sk ([[], [7], [0, 1, 0, 9, 140]] ! 2) =
             process_packet (sk\<lparr>counter := 3\<rparr>) [0, 1, 0, 9, 140]"
    by (intro exI)
  note u = counter_counts_every_packet [of init "[]" "[[7], [0, 1, 0, 9, 140]]" 0 "[]"]
  note v = u [THEN conjunct2, THEN conjunct2, THEN conjunct2, THEN mp, OF l, unfolded e(1)]
  have p4: "notification_handler init [] = Inr (init\<lparr>counter := 1\<rparr>, [])"
    "\<exists>s' outs. deliver (init\<lparr>counter := 1\<rparr>) [[7], [0, 1, 0, 9, 140]] = Inr (s', outs)
         \<and> deliver init [[], [7], [0, 1, 0, 9, 140]] = Inr (s', [] # outs)"
    by (rule v [THEN conjunct1], rule v [THEN conjunct2])
  from k l m d d' p3 p4 show ?thesis
    by (intro conjI)
qed

text \<open>
  C6. From a frame counter of 0, the \<open>k\<close>-th packet of any sequence (counting from 1)
  is handed to the decoding body exactly when \<open>k\<close> is a multiple of 3; every other
  packet writes no event and changes only the counter. Of nine packets the third, sixth
  and ninth are processed.
\<close>

theorem decimation_every_third:
  assumes "counter s = 0" and "1 \<le> k" and "k \<le> length ps"
  shows "\<exists>sk outs_k s1 s' outs.
           deliver s (take (k - 1) ps) = Inr (sk, outs_k) \<and> counter sk = int k - 1
           \<and> deliver s ps = Inr (s', outs)
           \<and> notification_handler sk (ps ! (k - 1)) = Inr (s1, outs ! (k - 1))
           \<and> (if 3 dvd k
               then process_packet (sk\<lparr>counter := int k\<rparr>) (ps ! (k - 1)) = Inr (s1, outs ! (k - 1))
               else s1 = sk\<lparr>counter := int k\<rparr> \<and> outs ! (k - 1) = [])"
proof -
  from assms have "k - 1 < length ps" by simp
  then obtain sk outs_k s1 s' outs where
    a: "deliver s (take (k - 1) ps) = Inr (sk, outs_k)" and
    b: "counter sk = counter s + int (k - 1)" and
    c: "notification_handler sk (ps ! (k - 1)) = Inr (s1, outs ! (k - 1))" and
    d: "deliver s ps = Inr (s', outs)"
    using deliver_nth by blast
  from b assms have e: "counter sk + 1 = int k" by simp
  have f: "(3 dvd k) = (int k mod 3 = 0)"
    by presburger
  have "if 3 dvd k
        then process_packet (sk\<lparr>counter := int k\<rparr>) (ps ! (k - 1)) = Inr (s1, outs ! (k - 1))
        else s1 = sk\<lparr>counter := int k\<rparr> \<and> outs ! (k - 1) = []"
  proof (cases "3 dvd k")
    case True
    with e f have "(counter sk + 1) mod 3 = 0" by simp
    from handler_process [OF this, of "ps ! (k - 1)"] c e True show ?thesis by simp
  next
    case False
    with e f have "(counter sk + 1) mod 3 \<noteq> 0" by simp
    from handler_skip [OF this, of "ps ! (k - 1)"] c e False show ?thesis by simp
  qed
  with a b c d e show ?thesis
    by (intro exI [of _ sk] exI [of _ outs_k] exI [of _ s1] exI [of _ s'] exI [of _ outs]) simp
qed

theorem decimation_every_third_witness:
  "counter init = 0 \<and> (1::nat) \<le> 3 \<and> 3 \<le> length (replicate 9 [0, 0, 0, 9, 118 :: byte])
   \<and> deliver init (replicate 9 [0, 0, 0, 9, 118]) =
        Inr (init\<lparr>counter := 9\<rparr>,
             [[], [], [Write EV_REL REL_X 20, Syn],
              [], [], [Write EV_REL REL_X 20, Syn],
              [], [], [Write EV_REL REL_X 20, Syn]])
   \<and> (\<exists>sk s1. counter sk = 2
         \<and> process_packet (sk\<lparr>counter := 3\<rparr>) [0, 0, 0, 9, 118] =
             Inr (s1, [Write EV_REL REL_X 20, Syn]))"
proof -
  have c: "counter init = 0" "last_button_state init = 0"
    by (simp_all add: init_def)
  have p: "process_packet (init\<lparr>counter := n\<rparr>) [0, 0, 0, 9, 118] =
             Inr (init\<lparr>counter := n\<rparr>, [Write EV_REL REL_X 20, Syn])" for n
    by (simp add: process_packet_long y_movement_init_118 get_x_direction_init
        handle_buttons_def send_movement_def c)
  have d: "deliver init (replicate 9 [0, 0, 0, 9, 118]) =
        Inr (init\<lparr>counter := 9\<rparr>,
             [[], [], [Write EV_REL REL_X 20, Syn],
              [], [], [Write EV_REL REL_X 20, Syn],
              [], [], [Write EV_REL REL_X 20, Syn]])"
    by (simp add: numeral_eq_Suc handler_skip handler_process c p)
  have l: "3 \<le> length (replicate 9 [0, 0, 0, 9, 118 :: byte])" by simp
  from decimation_every_third [OF c(1) _ l] d
  obtain sk outs_k s1 where "counter sk = int 3 - 1"
    "process_packet (sk\<lparr>counter := int 3\<rparr>) (replicate 9 [0, 0, 0, 9, 118] ! (3 - 1)) =
       Inr (s1, [[], [], [Write EV_REL REL_X 20, Syn],
              [], [], [Write EV_REL REL_X 20, Syn],
              [], [], [Write EV_REL REL_X 20, Syn]] ! (3 - 1))"
    by fastforce
  then have "\<exists>sk s1. counter sk = 2
         \<and> process_packet (sk\<lparr>counter := 3\<rparr>) [0, 0, 0, 9, 118] =
             Inr (s1, [Write EV_REL REL_X 20, Syn])"
    by auto
  with c d l show ?thesis by simp
qed

text \<open>
  C10. When the window of the driver's own calibration yields no sample (no packet, or
  only packets shorter than five bytes), \<^verbatim>\<open>calibrate_y_axis\<close> raises nothing and leaves
  the Y centre, like every other attribute, as it was.
\<close>

theorem calibrate_y_axis_empty_window:
  assumes "\<forall>p \<in> set window. length p < 5"
  shows "calibrate_y_axis s window = Inr s"
proof -
  from assms have "filter (\<lambda>p. 5 \<le> length p) window = []"
    by (simp add: filter_empty_conv not_le)
  then show ?thesis
    by (simp add: calibrate_y_axis_eq)
qed

theorem calibrate_y_axis_empty_window_witness:
  "length ([] :: packet) < 5 \<and> length [1, 2, 3 :: byte] < 5
   \<and> calibrate_y_axis init [[], [1, 2, 3]] = Inr init
   \<and> y_center init = 118"
proof -
  have h: "\<forall>p \<in> set [[], [1, 2, 3 :: byte]]. length p < 5" by simp
  from calibrate_y_axis_empty_window [OF h, of init] show ?thesis
    by (simp add: init_def)
qed

text \<open>
  C8. For non-empty lists of collected x and y values the calibration tool recommends
  the deadzone \<open>max x_drift y_drift + 5\<close>, where each drift is the largest minus the
  smallest value of its own axis. The y values 100, 102, 98, 104, 96 with an x drift of 0
  give 13.
\<close>

theorem recommended_deadzone:
  assumes "x_values c \<noteq> []" and "y_values c \<noteq> []"
  shows "\<exists>r. calibrate_statistics c = Inr r
             \<and> deadzone r = max (Max (set (x_values c)) - Min (set (x_values c)))
                                (Max (set (y_values c)) - Min (set (y_values c))) + 5"
proof -
  obtain mx my where "median (x_values c) = Inr mx" "median (y_values c) = Inr my"
    using assms median_total by blast
  from calibrate_statistics_eq [OF this assms] show ?thesis
    by simp
qed

theorem recommended_deadzone_witness:
  "x_values \<lparr>x_values = [7, 7, 7, 7, 7], y_values = [100, 102, 98, 104, 96],
             sample_count = 5, max_samples = 500\<rparr> \<noteq> []
   \<and> y_values \<lparr>x_values = [7, 7, 7, 7, 7], y_values = [100, 102, 98, 104, 96],
               sample_count = 5, max_samples = 500\<rparr> \<noteq> []
   \<and> (\<exists>r. calibrate_statistics \<lparr>x_values = [7, 7, 7, 7, 7], y_values = [100, 102, 98, 104, 96],
                                  sample_count = 5, max_samples = 500\<rparr> = Inr r
          \<and> deadzone r = 13)"
  using recommended_deadzone [of "\<lparr>x_values = [7, 7, 7, 7, 7], y_values = [100, 102, 98, 104, 96],
                                   sample_count = 5, max_samples = 500\<rparr>"]
  by simp

text \<open>
  C1, as the code has it. The calibration tool reports as Y centre the median of the
  collected y bytes, cut to an integer; the driver's own calibration sets its Y centre
  to the sum of the collected y bytes divided by their number, rounded down (the mean,
  not the median).
\<close>

theorem calibration_center:
  "(calibrator_deliver calibrator_init pkts = Inr c \<and> y_values c \<noteq> [] \<longrightarrow>
      (\<exists>r. calibrate_statistics c = Inr r \<and> center_y r = integer_median (y_values c)))
   \<and> (filter (\<lambda>p. 5 \<le> length p) window \<noteq> [] \<longrightarrow>
      calibrate_y_axis s window =
        Inr (s\<lparr>y_center :=
               sum_list (map (\<lambda>p. uint (p ! 4)) (filter (\<lambda>p. 5 \<le> length p) window))
               div int (length (filter (\<lambda>p. 5 \<le> length p) window))\<rparr>))"
proof (intro conjI impI)
  assume a: "calibrator_deliver calibrator_init pkts = Inr c \<and> y_values c \<noteq> []"
  have "byte_values (x_values calibrator_init)" "byte_values (y_values calibrator_init)"
    "length (x_values calibrator_init) = length (y_values calibrator_init)"
    by (simp_all add: calibrator_init_def byte_values_def)
  from calibrator_deliver_invariant [OF this, of pkts] a
  have b: "byte_values (x_values c)" "byte_values (y_values c)"
    "length (x_values c) = length (y_values c)"
    by auto
  with a have ne: "x_values c \<noteq> []" "y_values c \<noteq> []" by auto
  obtain mx where mx: "median (x_values c) = Inr mx"
    using ne median_total by blast
  obtain my where my: "median (y_values c) = Inr my" "py_int my = integer_median (y_values c)"
    using ne b median_bytes by blast
  from calibrate_statistics_eq [OF mx my(1) ne] my(2)
  show "\<exists>r. calibrate_statistics c = Inr r \<and> center_y r = integer_median (y_values c)"
    by simp
next
  assume "filter (\<lambda>p. 5 \<le> length p) window \<noteq> []"
  then show "calibrate_y_axis s window =
        Inr (s\<lparr>y_center :=
               sum_list (map (\<lambda>p. uint (p ! 4)) (filter (\<lambda>p. 5 \<le> length p) window))
               div int (length (filter (\<lambda>p. 5 \<le> length p) window))\<rparr>)"
    by (simp add: calibrate_y_axis_eq)
qed

theorem calibration_center_witness:
  "calibrator_deliver calibrator_init
     [[0, 0, 7, 100], [0, 0, 7, 102], [0, 0, 7, 98], [0, 0, 7, 104], [0, 0, 7, 96]] =
     Inr \<lparr>x_values = [7, 7, 7, 7, 7], y_values = [100, 102, 98, 104, 96],
          sample_count = 5, max_samples = 500\<rparr>
   \<and> (\<exists>r. calibrate_statistics \<lparr>x_values = [7, 7, 7, 7, 7], y_values = [100, 102, 98, 104, 96],
                                  sample_count = 5, max_samples = 500\<rparr> = Inr r
          \<and> center_y r = 100)
   \<and> filter (\<lambda>p. 5 \<le> length p) [[0, 0, 0, 4, 100], [0, 0, 0, 4, 102 :: byte]] \<noteq> []
   \<and> calibrate_y_axis init [[0, 0, 0, 4, 100], [0, 0, 0, 4, 102]] = Inr (init\<lparr>y_center := 101\<rparr>)"
proof -
  let ?c = "\<lparr>x_values = [7, 7, 7, 7, 7], y_values = [100, 102, 98, 104, 96],
            sample_count = 5, max_samples = 500\<rparr>"
  let ?pkts = "[[0, 0, 7, 100], [0, 0, 7, 102], [0, 0, 7, 98], [0, 0, 7, 104], [0, 0, 7, 96 :: byte]]"
  let ?w = "[[0, 0, 0, 4, 100], [0, 0, 0, 4, 102 :: byte]]"
  have d: "calibrator_deliver calibrator_init ?pkts = Inr ?c"
    by (simp add: calibrator_handler_eq calibrator_init_def)
  have m: "integer_median [100, 102, 98, 104, 96] = 100"
    by (simp add: integer_median_def)
  have f: "filter (\<lambda>p. 5 \<le> length p) ?w \<noteq> []" by simp
  from calibration_center [of ?pkts ?c ?w init] d m f show ?thesis
    by simp
qed

text \<open>
  C1 as stated fails on the driver: from the y bytes 0, 0, 255 its calibration sets the
  centre to 85, and their median is 0.
\<close>

theorem calibration_center_counterexample:
  "calibrate_y_axis init [[0, 0, 0, 4, 0], [0, 0, 0, 4, 0], [0, 0, 0, 4, 255]] =
     Inr (init\<lparr>y_center := 85\<rparr>)
   \<and> cal_collect ([], []) [[0, 0, 0, 4, 0], [0, 0, 0, 4, 0], [0, 0, 0, 4, 255]] =
       Inr ([0, 0, 255], [4, 4, 4])
   \<and> integer_median [0, 0, 255] = 0
   \<and> y_center (init\<lparr>y_center := 85\<rparr>) \<noteq> integer_median [0, 0, 255]"
proof -
  have "cal_collect ([], []) [[0, 0, 0, 4, 0], [0, 0, 0, 4, 0], [0, 0, 0, 4, 255]] =
       Inr ([0, 0, 255], [4, 4, 4])"
    by (simp add: cal_handler_eq)
  moreover have "integer_median [0, 0, 255] = 0"
    by (simp add: integer_median_def)
  moreover have "calibrate_y_axis init [[0, 0, 0, 4, 0], [0, 0, 0, 4, 0], [0, 0, 0, 4, 255]] =
     Inr (init\<lparr>y_center := 85\<rparr>)"
    by (simp add: calibrate_y_axis_eq)
  ultimately show ?thesis by simp
qed

text \<open>
  C3, as the code has it. On a processed packet the handler compares the whole button
  byte with the stored one. When they are equal it writes no button event; when they
  differ it writes the current value of both buttons, BTN_LEFT from bit 0 and BTN_RIGHT
  from bit 1, and stores the byte. For the masks 0, 1, 1, 3, 3, 0, each arriving on a
  processed frame after a stored mask of 0, three groups are written, at the masks 1, 3
  and 0, and the group at mask 3 writes the primary button as pressed again.
\<close>

theorem button_events_on_mask_change:
  "((counter s + 1) mod 3 = 0 \<and> 5 \<le> length data \<longrightarrow>
      (\<exists>s' out. notification_handler s data = Inr (s', out)
         \<and> last_button_state s' = uint (data ! 1)
         \<and> click_events out =
             (if uint (data ! 1) = last_button_state s then []
              else [(BTN_LEFT, if uint (data ! 1) AND 1 \<noteq> 0 then 1 else 0),
                    (BTN_RIGHT, if uint (data ! 1) AND 2 \<noteq> 0 then 1 else 0)])))
   \<and> deliver init (concat (map (\<lambda>m. [[], [], [0, m, 0, 4, 118]]) [0, 1, 1, 3, 3, 0])) =
       Inr (init\<lparr>counter := 18\<rparr>,
            [[], [], [],
             [], [], [Write EV_KEY BTN_LEFT 1, Write EV_KEY BTN_RIGHT 0, Syn],
             [], [], [],
             [], [], [Write EV_KEY BTN_LEFT 1, Write EV_KEY BTN_RIGHT 1, Syn],
             [], [], [],
             [], [], [Write EV_KEY BTN_LEFT 0, Write EV_KEY BTN_RIGHT 0, Syn]])"
proof (intro conjI impI)
  assume a: "(counter s + 1) mod 3 = 0 \<and> 5 \<le> length data"
  then show "\<exists>s' out. notification_handler s data = Inr (s', out)
         \<and> last_button_state s' = uint (data ! 1)
         \<and> click_events out =
             (if uint (data ! 1) = last_button_state s then []
              else [(BTN_LEFT, if uint (data ! 1) AND 1 \<noteq> 0 then 1 else 0),
                    (BTN_RIGHT, if uint (data ! 1) AND 2 \<noteq> 0 then 1 else 0)])"
    by (simp add: handler_process process_packet_long handle_buttons_def)
next
  have c: "counter init = 0" "last_button_state init = 0" "y_center init = 118"
    "y_deadzone init = 15"
    by (simp_all add: init_def)
  show "deliver init (concat (map (\<lambda>m. [[], [], [0, m, 0, 4, 118]]) [0, 1, 1, 3, 3, 0])) =
       Inr (init\<lparr>counter := 18\<rparr>,
            [[], [], [],
             [], [], [Write EV_KEY BTN_LEFT 1, Write EV_KEY BTN_RIGHT 0, Syn],
             [], [], [],
             [], [], [Write EV_KEY BTN_LEFT 1, Write EV_KEY BTN_RIGHT 1, Syn],
             [], [], [],
             [], [], [Write EV_KEY BTN_LEFT 0, Write EV_KEY BTN_RIGHT 0, Syn]])"
    by (simp add: handler_skip handler_process process_packet_short process_packet_centered
        handle_buttons_def c)
qed

theorem button_events_on_mask_change_witness:
  "(counter (init\<lparr>counter := 2, last_button_state := 1\<rparr>) + 1) mod 3 = 0
   \<and> 5 \<le> length [0, 3, 0, 4, 118 :: byte]
   \<and> (\<exists>s' out. notification_handler (init\<lparr>counter := 2, last_button_state := 1\<rparr>)
                   [0, 3, 0, 4, 118] = Inr (s', out)
         \<and> last_button_state s' = 3
         \<and> click_events out = [(BTN_LEFT, 1), (BTN_RIGHT, 1)])"
  using button_events_on_mask_change
          [of "init\<lparr>counter := 2, last_button_state := 1\<rparr>" "[0, 3, 0, 4, 118]"]
  by simp

text \<open>
  C3 as stated fails: with the stored mask 1 (primary held) a processed packet with the
  mask 3 writes BTN_LEFT again, although bit 0 is the same in both masks.
\<close>

theorem button_edge_counterexample:
  "deliver init [[0, 1, 0, 4, 118], [0, 1, 0, 4, 118], [0, 1, 0, 4, 118],
                 [0, 3, 0, 4, 118], [0, 3, 0, 4, 118], [0, 3, 0, 4, 118]] =
     Inr (init\<lparr>counter := 6, last_button_state := 3\<rparr>,
          [[], [], [Write EV_KEY BTN_LEFT 1, Write EV_KEY BTN_RIGHT 0, Syn],
           [], [], [Write EV_KEY BTN_LEFT 1, Write EV_KEY BTN_RIGHT 1, Syn]])
   \<and> (3 :: int) AND 1 = 1 AND 1"
proof -
  have c: "counter init = 0" "last_button_state init = 0" "y_center init = 118"
    "y_deadzone init = 15"
    by (simp_all add: init_def)
  have "deliver init [[0, 1, 0, 4, 118], [0, 1, 0, 4, 118], [0, 1, 0, 4, 118],
                 [0, 3, 0, 4, 118], [0, 3, 0, 4, 118], [0, 3, 0, 4, 118]] =
     Inr (init\<lparr>counter := 6, last_button_state := 3\<rparr>,
          [[], [], [Write EV_KEY BTN_LEFT 1, Write EV_KEY BTN_RIGHT 0, Syn],
           [], [], [Write EV_KEY BTN_LEFT 1, Write EV_KEY BTN_RIGHT 1, Syn]])"
    by (simp add: handler_skip handler_process process_packet_centered handle_buttons_def c)
  then show ?thesis by simp
qed

text \<open>
  C2, as the code has it. Reconnecting assigns the client and nothing else: the stored
  button byte and the frame counter keep the values they had before the link was lost
  (they are set to 0 only when the driver object is made), and the handler answers every
  packet sequence after the reconnect as it would have without the disconnect.
\<close>

theorem reconnect_keeps_state:
  "last_button_state (run_step (connection_lost s)) = last_button_state s
   \<and> counter (run_step (connection_lost s)) = counter s
   \<and> (\<exists>s' outs. deliver s ps = Inr (s', outs)
         \<and> deliver (run_step (connection_lost s)) ps = Inr (s'\<lparr>client_connected := True\<rparr>, outs))"
proof -
  obtain s' outs where d: "deliver s ps = Inr (s', outs)"
    using deliver_total by blast
  from deliver_client [OF d, of True] d show ?thesis
    by (simp add: reconnect_eq)
qed

theorem reconnect_keeps_state_witness:
  "last_button_state (run_step (connection_lost (connect init))) = 0
   \<and> counter (run_step (connection_lost (connect init))) = 0
   \<and> (\<exists>s' outs. deliver (connect init) [[0, 1, 0, 4, 118]] = Inr (s', outs)
         \<and> deliver (run_step (connection_lost (connect init))) [[0, 1, 0, 4, 118]] =
             Inr (s'\<lparr>client_connected := True\<rparr>, outs))"
proof -
  have "last_button_state (connect init) = 0" "counter (connect init) = 0"
    by (simp_all add: connect_def init_def)
  with reconnect_keeps_state [of "connect init" "[[0, 1, 0, 4, 118]]"] show ?thesis
    by (simp only:)
qed

text \<open>
  C2 as stated fails. The primary button is pressed and reported, the link is lost and
  the loop of \<^verbatim>\<open>run\<close> reconnects: the stored byte is still 1. The first processed
  packet after the reconnect has no button down and a release of both buttons is
  written, though no button has been pressed since the reconnect.
\<close>

theorem reconnect_reset_counterexample:
  "deliver (connect init) [[0, 1, 0, 4, 118], [0, 1, 0, 4, 118], [0, 1, 0, 4, 118]] =
     Inr (\<lparr>client_connected = True, counter = 3, last_button_state = 1, y_center = 118,
           y_deadzone = 15, x_speed = 20, y_sensitivity = float_0_4\<rparr>,
          [[], [], [Write EV_KEY BTN_LEFT 1, Write EV_KEY BTN_RIGHT 0, Syn]])
   \<and> run_step (connection_lost
        \<lparr>client_connected = True, counter = 3, last_button_state = 1, y_center = 118,
         y_deadzone = 15, x_speed = 20, y_sensitivity = float_0_4\<rparr>) =
       \<lparr>client_connected = True, counter = 3, last_button_state = 1, y_center = 118,
        y_deadzone = 15, x_speed = 20, y_sensitivity = float_0_4\<rparr>
   \<and> last_button_state (run_step (connection_lost
        \<lparr>client_connected = True, counter = 3, last_button_state = 1, y_center = 118,
         y_deadzone = 15, x_speed = 20, y_sensitivity = float_0_4\<rparr>)) \<noteq> 0
   \<and> deliver (run_step (connection_lost
        \<lparr>client_connected = True, counter = 3, last_button_state = 1, y_center = 118,
         y_deadzone = 15, x_speed = 20, y_sensitivity = float_0_4\<rparr>))
        [[0, 0, 0, 4, 118], [0, 0, 0, 4, 118], [0, 0, 0, 4, 118]] =
     Inr (\<lparr>client_connected = True, counter = 6, last_button_state = 0, y_center = 118,
           y_deadzone = 15, x_speed = 20, y_sensitivity = float_0_4\<rparr>,
          [[], [], [Write EV_KEY BTN_LEFT 0, Write EV_KEY BTN_RIGHT 0, Syn]])"
proof -
  let ?s = "\<lparr>client_connected = True, counter = 3, last_button_state = 1, y_center = 118,
            y_deadzone = 15, x_speed = 20, y_sensitivity = float_0_4\<rparr>"
  have a: "deliver (connect init) [[0, 1, 0, 4, 118], [0, 1, 0, 4, 118], [0, 1, 0, 4, 118]] =
     Inr (?s, [[], [], [Write EV_KEY BTN_LEFT 1, Write EV_KEY BTN_RIGHT 0, Syn]])"
    by (simp add: connect_def init_def handler_skip handler_process process_packet_centered
        handle_buttons_def)
  have b: "run_step (connection_lost ?s) = ?s"
    by (simp add: run_step_def connection_lost_def connect_def)
  have c: "deliver ?s [[0, 0, 0, 4, 118], [0, 0, 0, 4, 118], [0, 0, 0, 4, 118]] =
     Inr (\<lparr>client_connected = True, counter = 6, last_button_state = 0, y_center = 118,
           y_deadzone = 15, x_speed = 20, y_sensitivity = float_0_4\<rparr>,
          [[], [], [Write EV_KEY BTN_LEFT 0, Write EV_KEY BTN_RIGHT 0, Syn]])"
    by (simp add: handler_skip handler_process process_packet_centered handle_buttons_def)
  from a b c show ?thesis
    by (simp only: driver.simps) simp
qed

end
